theory Spec2Isabelle
  imports Main "HOL-Library.Word"
begin

section \<open>A model of the sbrk-based allocator of main.c\<close>

text \<open>
  The allocator keeps a singly linked registry of block headers inside one region of
  the address space that ends at the program break. The model below follows main.c
  function by function. Addresses and \<open>size_t\<close> values are 64-bit words (the LP64
  data model of the POSIX systems that provide \<open>sbrk\<close>), \<open>unsigned\<close> is a 32-bit
  word, pointer arithmetic is word arithmetic, and the null pointer is the address 0.

  Memory is split in two typed stores: \<open>hdr\<close> gives the three header fields found at
  an address, \<open>mem\<close> gives the payload byte found at an address. Both are total:
  reading an address that was never written yields whatever the store holds there,
  as reading mapped memory does in C. The model has no faults: a header written at or
  above the break is stored like any other, where the program may be stopped by the
  system when the page is not mapped.

  The mutex of main.c is taken and released around every body; with one thread it has
  no effect on the result, and it is left out.
\<close>

subsection \<open>Types\<close>

type_synonym addr = "64 word"
type_synonym size_t = "64 word"
type_synonym byte = "8 word"

abbreviation NULL :: addr where
  "NULL \<equiv> 0"

text \<open>The anonymous struct \<open>s\<close> of \<open>union header\<close>: fields \<open>s.size\<close>, \<open>s.is_free\<close>, \<open>s.next\<close>.\<close>

record header =
  s_size :: size_t
  s_is_free :: "32 word"
  s_next :: addr

text \<open>
  The globals \<open>head\<close> and \<open>tail\<close>, the two stores, and the environment: the current
  program break \<open>brk\<close> and the window \<open>heap_lo .. heap_hi\<close> in which the operating
  system lets the break move. The window never changes.
\<close>

record state =
  head :: addr
  tail :: addr
  hdr :: "addr \<Rightarrow> header"
  mem :: "addr \<Rightarrow> byte"
  brk :: addr
  heap_lo :: addr
  heap_hi :: addr

subsection \<open>The size of the header\<close>

text \<open>
  \<open>sizeof(header_t)\<close> is fixed by the C data layout rules, which main.c relies on but
  does not contain: each struct member sits at the next offset that is a multiple of
  its alignment, a struct is padded to a multiple of its largest member alignment, and
  a union is as large as its largest member, padded to its largest member alignment.
  Scalar types are aligned to their size; \<open>char[16]\<close> has size 16 and alignment 1.
  The data model gives the sizes of \<open>size_t\<close>, \<open>unsigned\<close> and pointers.
\<close>

record data_model =
  sizeof_size_t :: nat
  sizeof_unsigned :: nat
  sizeof_pointer :: nat

definition LP64 :: data_model where
  "LP64 = \<lparr>sizeof_size_t = 8, sizeof_unsigned = 4, sizeof_pointer = 8\<rparr>"

definition ILP32 :: data_model where
  "ILP32 = \<lparr>sizeof_size_t = 4, sizeof_unsigned = 4, sizeof_pointer = 4\<rparr>"

definition align_up :: "nat \<Rightarrow> nat \<Rightarrow> nat" where
  "align_up n a = ((n + a - 1) div a) * a"

definition alignof_struct_s :: "data_model \<Rightarrow> nat" where
  "alignof_struct_s dm = max (sizeof_size_t dm) (max (sizeof_unsigned dm) (sizeof_pointer dm))"

definition sizeof_struct_s :: "data_model \<Rightarrow> nat" where
  "sizeof_struct_s dm =
     (let off_is_free = align_up (sizeof_size_t dm) (sizeof_unsigned dm);
          off_next = align_up (off_is_free + sizeof_unsigned dm) (sizeof_pointer dm)
      in align_up (off_next + sizeof_pointer dm) (alignof_struct_s dm))"

definition sizeof_ALIGH :: nat where
  "sizeof_ALIGH = 16"

definition sizeof_union_header :: "data_model \<Rightarrow> nat" where
  "sizeof_union_header dm =
     align_up (max (sizeof_struct_s dm) sizeof_ALIGH) (max (alignof_struct_s dm) 1)"

definition sizeof_header_t :: size_t where
  "sizeof_header_t = of_nat (sizeof_union_header LP64)"

subsection \<open>The environment: sbrk\<close>

text \<open>
  \<open>sbrk\<close> is the C library call on top of the \<open>brk\<close> system call; main.c calls it and
  does not contain it. It takes an \<open>intptr_t\<close>: the \<open>size_t\<close> argument of main.c is read
  as a signed number.
  \<^item> An increment of 0 reports the break.
  \<^item> A positive increment moves the break up when the new break, computed without
    wrap-around, is at most \<open>heap_hi\<close>, and returns the old break. Otherwise the call
    returns \<open>(void *) -1\<close> and changes nothing.
  \<^item> A negative increment larger than the break itself returns \<open>(void *) -1\<close>. One that
    leaves the new break at or above \<open>heap_lo\<close>, the start of the heap, moves the break
    down and returns the old break. One that would put the break below \<open>heap_lo\<close> is
    ignored by the system call, which answers with the unchanged break; the library
    call takes that for success: it returns the old break and the break has not moved.
\<close>

definition sbrk_failed :: addr where
  "sbrk_failed = - 1"

definition sbrk :: "size_t \<Rightarrow> state \<Rightarrow> addr \<times> state" where
  "sbrk increment s =
     (if increment = 0 then (brk s, s)
      else if 0 < sint increment then
        (if uint (brk s) + sint increment \<le> uint (heap_hi s)
         then (brk s, s\<lparr>brk := brk s + increment\<rparr>)
         else (sbrk_failed, s))
      else if uint (brk s) + sint increment < 0 then (sbrk_failed, s)
      else if uint (heap_lo s) \<le> uint (brk s) + sint increment
      then (brk s, s\<lparr>brk := brk s + increment\<rparr>)
      else (brk s, s))"

subsection \<open>memset and memcpy on the payload store\<close>

text \<open>
  \<open>memset(p, c, n)\<close> writes \<open>c\<close> to the \<open>n\<close> bytes from \<open>p\<close>. \<open>memcpy(dst, src, n)\<close>
  gives the \<open>n\<close> bytes from \<open>dst\<close> the values that the \<open>n\<close> bytes from \<open>src\<close> had
  before the call (C leaves the result undefined when the two ranges overlap).
\<close>

definition memset :: "addr \<Rightarrow> byte \<Rightarrow> size_t \<Rightarrow> state \<Rightarrow> state" where
  "memset p c n s = s\<lparr>mem := (\<lambda>a. if a - p < n then c else mem s a)\<rparr>"

definition memcpy :: "addr \<Rightarrow> addr \<Rightarrow> size_t \<Rightarrow> state \<Rightarrow> state" where
  "memcpy dst src n s = s\<lparr>mem := (\<lambda>a. if a - dst < n then mem s (src + (a - dst)) else mem s a)\<rparr>"

subsection \<open>get_free_block\<close>

text \<open>
  The \<open>while (curr)\<close> loop of \<open>get_free_block\<close>. On a cyclic registry without a
  fitting block the loop of main.c never ends; the model then has the value \<open>None\<close>.
\<close>

partial_function (option) get_free_block_loop :: "addr \<Rightarrow> size_t \<Rightarrow> state \<Rightarrow> addr option" where
  "get_free_block_loop curr' size' s =
     (if curr' \<noteq> NULL then
        (if s_is_free (hdr s curr') = 1 \<and> size' \<le> s_size (hdr s curr') then Some curr'
         else get_free_block_loop (s_next (hdr s curr')) size' s)
      else Some NULL)"

definition get_free_block :: "size_t \<Rightarrow> state \<Rightarrow> addr option" where
  "get_free_block size' s = get_free_block_loop (head s) size' s"

subsection \<open>malloc\<close>

definition malloc :: "size_t \<Rightarrow> state \<Rightarrow> (addr \<times> state) option" where
  "malloc size' s =
     (if size' = 0 then Some (NULL, s)
      else case get_free_block size' s of
        None \<Rightarrow> None
      | Some header \<Rightarrow>
          if header \<noteq> NULL then
            Some (header + sizeof_header_t,
                  s\<lparr>hdr := (hdr s)(header := (hdr s header)\<lparr>s_is_free := 0\<rparr>)\<rparr>)
          else
            let total_size = sizeof_header_t + size';
                (block, s1) = sbrk total_size s
            in if block = sbrk_failed then Some (NULL, s1)
               else
                 let header = block;
                     s2 = s1\<lparr>hdr := (hdr s1)(header := (hdr s1 header)\<lparr>s_size := size'\<rparr>)\<rparr>;
                     s3 = s2\<lparr>hdr := (hdr s2)(header := (hdr s2 header)\<lparr>s_is_free := 0\<rparr>)\<rparr>;
                     s4 = s3\<lparr>hdr := (hdr s3)(header := (hdr s3 header)\<lparr>s_next := NULL\<rparr>)\<rparr>;
                     s5 = (if head s4 = NULL then s4\<lparr>head := header\<rparr> else s4);
                     s6 = (if tail s5 \<noteq> NULL
                           then s5\<lparr>hdr := (hdr s5)(tail s5 := (hdr s5 (tail s5))\<lparr>s_next := header\<rparr>)\<rparr>
                           else s5);
                     s7 = s6\<lparr>tail := header\<rparr>
                 in Some (header + sizeof_header_t, s7))"

subsection \<open>free\<close>

text \<open>
  The \<open>while (tmp)\<close> loop that looks for the block whose \<open>next\<close> is \<open>tail\<close>. It reads
  \<open>tmp->s.next\<close> again after the assignment inside the \<open>if\<close>, as main.c does.
\<close>

partial_function (option) free_loop :: "addr \<Rightarrow> state \<Rightarrow> state option" where
  "free_loop tmp s =
     (if tmp \<noteq> NULL then
        (let s1 = (if s_next (hdr s tmp) = tail s
                   then (s\<lparr>hdr := (hdr s)(tmp := (hdr s tmp)\<lparr>s_next := NULL\<rparr>)\<rparr>)\<lparr>tail := tmp\<rparr>
                   else s)
         in free_loop (s_next (hdr s1 tmp)) s1)
      else Some s)"

definition free :: "addr \<Rightarrow> state \<Rightarrow> state option" where
  "free block s =
     (if block = NULL then Some s
      else
        let header = block - sizeof_header_t;
            (programbreak, s0) = sbrk 0 s
        in if block + s_size (hdr s0 header) = programbreak then
             (case (if head s0 = tail s0 then Some (s0\<lparr>tail := NULL, head := NULL\<rparr>)
                    else free_loop (head s0) s0) of
                None \<Rightarrow> None
              | Some s1 \<Rightarrow>
                  Some (snd (sbrk (0 - sizeof_header_t - s_size (hdr s1 header)) s1)))
           else Some (s0\<lparr>hdr := (hdr s0)(header := (hdr s0 header)\<lparr>s_is_free := 1\<rparr>)\<rparr>))"

subsection \<open>calloc and realloc\<close>

definition calloc :: "size_t \<Rightarrow> size_t \<Rightarrow> state \<Rightarrow> (addr \<times> state) option" where
  "calloc num nsize s =
     (if num = 0 \<or> nsize = 0 then Some (NULL, s)
      else
        let size' = num * nsize
        in if nsize \<noteq> size' div num then Some (NULL, s)
           else case malloc size' s of
             None \<Rightarrow> None
           | Some (block, s1) \<Rightarrow>
               if block = NULL then Some (NULL, s1)
               else Some (block, memset block 0 size' s1))"

definition realloc :: "addr \<Rightarrow> size_t \<Rightarrow> state \<Rightarrow> (addr \<times> state) option" where
  "realloc block size' s =
     (if block = NULL \<or> size' = 0 then Some (NULL, s)
      else
        let header = block - sizeof_header_t
        in if size' \<le> s_size (hdr s header) then Some (block, s)
           else case malloc size' s of
             None \<Rightarrow> None
           | Some (ret, s1) \<Rightarrow>
               if ret \<noteq> NULL then
                 (case free block (memcpy ret block (s_size (hdr s1 header)) s1) of
                    None \<Rightarrow> None
                  | Some s2 \<Rightarrow> Some (ret, s2))
               else Some (ret, s1))"

section \<open>The registry as a list, and the states used as examples\<close>

text \<open>
  \<open>chain h p bs\<close>: following \<open>s.next\<close> from the pointer \<open>p\<close> visits exactly the headers
  \<open>bs\<close>, none of them null, and then reaches the null pointer.
\<close>

fun chain :: "(addr \<Rightarrow> header) \<Rightarrow> addr \<Rightarrow> addr list \<Rightarrow> bool" where
  "chain h p [] = (p = NULL)"
| "chain h p (b # bs) = (p = b \<and> b \<noteq> NULL \<and> chain h (s_next (h b)) bs)"

text \<open>The test of \<open>get_free_block\<close> on one header.\<close>

definition fits :: "state \<Rightarrow> size_t \<Rightarrow> addr \<Rightarrow> bool" where
  "fits s size' b = (s_is_free (hdr s b) = 1 \<and> size' \<le> s_size (hdr s b))"

text \<open>
  The break lies in the window of the environment, and the window lies in the lower
  half of the address space with room for one more header, so that no address computed
  from a break wraps around and no signed increment is misread.
\<close>

definition env_ok :: "state \<Rightarrow> bool" where
  "env_ok s = (heap_lo s \<le> brk s \<and> brk s \<le> heap_hi s
               \<and> uint (heap_hi s) + uint sizeof_header_t < 2 ^ 63)"

text \<open>
  Registry consistency: the headers reached from head by \<open>s.next\<close> form a chain to the
  null pointer in which no header occurs twice, and tail is the last header of the
  chain, or null when the chain is empty. The chain is empty exactly when head is null,
  so head is null exactly when tail is (lemma \<open>registry_consistent_iff\<close> below).
\<close>

definition registry_consistent :: "state \<Rightarrow> bool" where
  "registry_consistent s =
     (\<exists>bs. chain (hdr s) (head s) bs \<and> distinct bs
           \<and> tail s = (if bs = [] then NULL else last bs))"

text \<open>
  The layout of the region. \<open>block_end h b\<close> is the address after the payload of the
  block with header \<open>b\<close>, computed without wrap-around. \<open>laid_out h lo bs hi\<close>: the blocks
  \<open>bs\<close> lie in address order between \<open>lo\<close> and \<open>hi\<close>, none starting before the
  previous one ends.
\<close>

definition block_end :: "(addr \<Rightarrow> header) \<Rightarrow> addr \<Rightarrow> int" where
  "block_end h b = uint b + uint sizeof_header_t + uint (s_size (h b))"

fun laid_out :: "(addr \<Rightarrow> header) \<Rightarrow> int \<Rightarrow> addr list \<Rightarrow> int \<Rightarrow> bool" where
  "laid_out h lo [] hi = (lo \<le> hi)"
| "laid_out h lo (b # bs) hi = (lo \<le> uint b \<and> laid_out h (block_end h b) bs hi)"

text \<open>
  A valid state: the environment is sound, the null address is below the window, the
  registry is the chain \<open>bs\<close> from head with tail its last header, and the blocks of
  \<open>bs\<close> are laid out between the bottom of the window and the break.
\<close>

definition valid_state :: "state \<Rightarrow> addr list \<Rightarrow> bool" where
  "valid_state s bs =
     (env_ok s \<and> 0 < heap_lo s
      \<and> chain (hdr s) (head s) bs
      \<and> tail s = (if bs = [] then NULL else last bs)
      \<and> laid_out (hdr s) (uint (heap_lo s)) bs (uint (brk s)))"

text \<open>
  Two concrete states. \<open>st_empty\<close> is the allocator before the first call, with the
  break at 4096. \<open>st_abc\<close> holds three blocks appended in this order: A at 4096 with
  64 bytes (in use), B at 4184 with 128 bytes (freed), C at 4336 with 32 bytes (in use);
  the break is 4392, the byte after the payload of C. Every byte of \<open>st_abc\<close> holds the
  low eight bits of its own address.
\<close>

definition hdr_empty :: "addr \<Rightarrow> header" where
  "hdr_empty = (\<lambda>_. \<lparr>s_size = 0, s_is_free = 0, s_next = NULL\<rparr>)"

definition st_empty :: state where
  "st_empty = \<lparr>head = NULL, tail = NULL, hdr = hdr_empty, mem = (\<lambda>_. 0),
               brk = 4096, heap_lo = 4096, heap_hi = 1048576\<rparr>"

definition st_abc :: state where
  "st_abc = \<lparr>head = 4096, tail = 4336,
             hdr = hdr_empty
               (4096 := \<lparr>s_size = 64, s_is_free = 0, s_next = 4184\<rparr>,
                4184 := \<lparr>s_size = 128, s_is_free = 1, s_next = 4336\<rparr>,
                4336 := \<lparr>s_size = 32, s_is_free = 0, s_next = NULL\<rparr>),
             mem = (\<lambda>a. ucast a),
             brk = 4392, heap_lo = 4096, heap_hi = 1048576\<rparr>"

section \<open>Facts about the header size, words and sbrk\<close>

lemma sizeof_header_t_eq: "sizeof_header_t = 24"
  by (simp add: sizeof_header_t_def sizeof_union_header_def sizeof_struct_s_def
        alignof_struct_s_def sizeof_ALIGH_def align_up_def LP64_def)

lemma uint_add_sint:
  fixes b i :: "64 word"
  assumes "0 \<le> uint b + sint i" and "uint b + sint i < 2 ^ 64"
  shows "uint (b + i) = uint b + sint i"
proof -
  have "b + i = word_of_int (uint b + sint i)"
    by simp
  then have "uint (b + i) = (uint b + sint i) mod 2 ^ 64"
    by (simp only: uint_word_of_int) simp
  with assms show ?thesis by simp
qed

lemma sint_neg:
  fixes i :: "64 word"
  assumes "sint i \<noteq> - (2 ^ 63)"
  shows "sint (- i) = - sint i"
proof -
  have "- (2 ^ 63) \<le> sint i" "sint i < 2 ^ 63"
    using sint_ge [of i] sint_lt [of i] by simp_all
  with assms have "- (2 ^ 63) \<le> - sint i" "- sint i < 2 ^ 63"
    by simp_all
  then show ?thesis
    by (simp add: sint_word_minus signed_take_bit_int_eq_self)
qed

lemma sint_small:
  fixes w :: "64 word"
  assumes "uint w < 2 ^ 63"
  shows "sint w = uint w"
proof -
  have "(0::int) < 2 ^ 63" by simp
  then have "- (2 ^ 63) \<le> uint w"
    using uint_ge_0 [of w] by linarith
  with assms have "signed_take_bit 63 (uint w) = uint w"
    by (intro signed_take_bit_int_eq_self)
  then show ?thesis by (simp add: sint_uint)
qed

lemma env_ok_hi: "env_ok s \<Longrightarrow> uint (heap_hi s) < 2 ^ 63"
  using uint_ge_0 [of sizeof_header_t] unfolding env_ok_def by linarith

lemma env_ok_payload: "env_ok s \<Longrightarrow> brk s + sizeof_header_t \<noteq> NULL"
proof
  assume e: "env_ok s" and z: "brk s + sizeof_header_t = NULL"
  from e have "uint (brk s) + uint sizeof_header_t < 2 ^ 64"
    by (simp add: env_ok_def word_le_def)
  then have "uint (brk s + sizeof_header_t) = uint (brk s) + uint sizeof_header_t"
    by (simp add: uint_add_lem [THEN iffD1])
  with z have "uint (brk s) + 24 = 0"
    by (simp add: sizeof_header_t_eq)
  with uint_ge_0 [of "brk s"] show False by linarith
qed

lemma env_ok_not_failed: "env_ok s \<Longrightarrow> brk s \<noteq> sbrk_failed"
proof
  assume e: "env_ok s" and f: "brk s = sbrk_failed"
  have "uint (- 1 :: 64 word) = 2 ^ 64 - 1"
    by (simp add: uint_word_ariths)
  with f have "uint (brk s) = 2 ^ 64 - 1"
    by (simp add: sbrk_failed_def)
  moreover from e have "uint (brk s) \<le> uint (heap_hi s)"
    by (simp add: env_ok_def word_le_def)
  with e have "uint (brk s) < 2 ^ 63"
    using env_ok_hi [of s] by linarith
  ultimately show False by simp
qed

text \<open>The three outcomes of \<open>sbrk\<close>, and the outcome of a positive increment.\<close>

lemma sbrk_cases:
  "sbrk i s = (sbrk_failed, s) \<or> sbrk i s = (brk s, s) \<or> sbrk i s = (brk s, s\<lparr>brk := brk s + i\<rparr>)"
  by (simp add: sbrk_def)

lemma sbrk_grow:
  assumes "0 < sint i" and "fst (sbrk i s) \<noteq> sbrk_failed"
  shows "sbrk i s = (brk s, s\<lparr>brk := brk s + i\<rparr>)"
    and "uint (brk s) + sint i \<le> uint (heap_hi s)"
  using assms by (auto simp: sbrk_def split: if_splits)

section \<open>Facts about chains\<close>

lemma chain_unique: "chain h p xs \<Longrightarrow> chain h p ys \<Longrightarrow> xs = ys"
proof (induction xs arbitrary: p ys)
  case Nil
  then show ?case by (cases ys) auto
next
  case (Cons x xs)
  then show ?case by (cases ys) auto
qed

lemma chain_suffix: "chain h p (xs @ b # ys) \<Longrightarrow> chain h b (b # ys)"
  by (induction xs arbitrary: p) auto

lemma chain_nonnull: "chain h p bs \<Longrightarrow> NULL \<notin> set bs"
  by (induction bs arbitrary: p) auto

text \<open>A chain that reaches the null pointer cannot visit a header twice.\<close>

lemma chain_distinct: "chain h p bs \<Longrightarrow> distinct bs"
proof (induction bs arbitrary: p)
  case Nil
  then show ?case by simp
next
  case (Cons b bs)
  have "b \<notin> set bs"
  proof
    assume "b \<in> set bs"
    then obtain us vs where bs: "bs = us @ b # vs"
      by (auto simp: in_set_conv_decomp)
    with Cons.prems have "chain h b (b # vs)"
      using chain_suffix [of h "s_next (h b)" us b vs] by simp
    moreover from Cons.prems have "chain h b (b # bs)" by simp
    ultimately have "b # vs = b # bs" by (rule chain_unique)
    with bs show False by simp
  qed
  with Cons show ?case by auto
qed

lemma chain_upd_other: "a \<notin> set bs \<Longrightarrow> chain (h(a := v)) p bs = chain h p bs"
  by (induction bs arbitrary: p) auto

lemma chain_upd_same_next:
  "s_next v = s_next (h a) \<Longrightarrow> chain (h(a := v)) p bs = chain h p bs"
  by (induction bs arbitrary: p) auto

lemma find_in_chain: "chain h p bs \<Longrightarrow> find P bs = Some b \<Longrightarrow> b \<noteq> NULL"
  by (metis chain_nonnull find_Some_iff nth_mem)

text \<open>On a chain the search loop ends, with the first header that fits or with null.\<close>

lemma get_free_block_loop_chain:
  "chain (hdr s) p bs \<Longrightarrow>
   get_free_block_loop p size' s = Some (case find (fits s size') bs of None \<Rightarrow> NULL | Some b \<Rightarrow> b)"
proof (induction bs arbitrary: p)
  case Nil
  then show ?case by (simp add: get_free_block_loop.simps)
next
  case (Cons b bs)
  show ?case
  proof (cases "fits s size' b")
    case True
    with Cons.prems show ?thesis
      by (subst get_free_block_loop.simps) (simp add: fits_def)
  next
    case False
    then have "\<not> (s_is_free (hdr s b) = 1 \<and> size' \<le> s_size (hdr s b))"
      by (simp add: fits_def)
    with Cons False show ?thesis
      by (subst get_free_block_loop.simps) auto
  qed
qed

text \<open>
  On a chain with at least two headers whose last header is \<open>tail\<close>, the loop of \<open>free\<close>
  ends: it clears \<open>next\<close> of the header before the last and makes it the tail.
\<close>

lemma free_loop_chain:
  "chain (hdr s) q (xs @ [p, c]) \<Longrightarrow> tail s = c \<Longrightarrow>
   free_loop q s = Some (s\<lparr>hdr := (hdr s)(p := (hdr s p)\<lparr>s_next := NULL\<rparr>), tail := p\<rparr>)"
proof (induction xs arbitrary: q)
  case Nil
  then show ?case
    by (subst free_loop.simps) (simp add: free_loop.simps)
next
  case (Cons x xs)
  from Cons.prems(1) have d: "distinct (x # xs @ [p, c])"
    using chain_distinct by fastforce
  from Cons.prems(1) have c: "chain (hdr s) (s_next (hdr s x)) (xs @ [p, c])" and q: "q = x" "x \<noteq> NULL"
    by simp_all
  have "s_next (hdr s x) \<noteq> c"
  proof (cases xs)
    case Nil
    with c d show ?thesis by auto
  next
    case (Cons y ys)
    with c d show ?thesis by auto
  qed
  with Cons.prems(2) q have "free_loop q s = free_loop (s_next (hdr s x)) s"
    by (subst free_loop.simps) simp
  with Cons.IH [OF c Cons.prems(2)] show ?case
    by (simp only:)
qed

section \<open>Facts about the multiplication check, the payload store and failed requests\<close>

text \<open>The division test of \<open>calloc\<close> fails exactly when the product does not fit in 64 bits.\<close>

lemma word_mul_overflow_check:
  fixes num nsize :: "64 word"
  assumes "num \<noteq> 0"
  shows "(nsize \<noteq> (num * nsize) div num) = (2 ^ 64 \<le> unat num * unat nsize)"
proof (cases "unat num * unat nsize < 2 ^ 64")
  case True
  then have "unat (num * nsize) = unat num * unat nsize"
    by (simp add: unat_mult_lem [THEN iffD1])
  moreover have "0 < unat num"
    using assms by (simp add: unat_gt_0)
  ultimately have "unat ((num * nsize) div num) = unat nsize"
    by (simp add: unat_div)
  then have "(num * nsize) div num = nsize"
    by (simp add: word_unat_eq_iff)
  with True show ?thesis by simp
next
  case False
  have pos: "0 < unat num"
    using assms by (simp add: unat_gt_0)
  have "unat (num * nsize) < 2 ^ 64"
    using unsigned_less [of "num * nsize"] by simp
  with False have "unat (num * nsize) < unat nsize * unat num"
    by (simp add: mult.commute)
  with pos have "unat (num * nsize) div unat num < unat nsize"
    by (simp add: div_less_iff_less_mult)
  then have "unat ((num * nsize) div num) \<noteq> unat nsize"
    by (simp add: unat_div)
  then have "(num * nsize) div num \<noteq> nsize"
    by auto
  with False show ?thesis by auto
qed

text \<open>Neither \<open>malloc\<close> nor \<open>free\<close> writes a payload byte.\<close>

lemma sbrk_mem: "mem (snd (sbrk i s)) = mem s"
  by (simp add: sbrk_def)

lemma malloc_mem: "malloc size' s = Some (p, s1) \<Longrightarrow> mem s1 = mem s"
  by (auto simp: malloc_def sbrk_def Let_def split: if_splits option.splits)

lemma malloc_size_field:
  "malloc size' s = Some (p, s1) \<Longrightarrow>
   s_size (hdr s1 h) = s_size (hdr s h) \<or> s_size (hdr s1 h) = size'"
  by (auto simp: malloc_def sbrk_def Let_def split: if_splits option.splits)

lemma free_loop_mem: "free_loop q s = Some s' \<Longrightarrow> mem s' = mem s"
proof (induction q s s' rule: free_loop.raw_induct [rotated 1, consumes 1, case_names step])
  case (step f tmp s r)
  from step.hyps show ?case
    by (auto simp: Let_def dest!: step.IH split: if_splits)
qed

lemma free_mem: "free b s = Some s' \<Longrightarrow> mem s' = mem s"
  by (auto simp: free_def sbrk_def Let_def dest!: free_loop_mem split: if_splits option.splits)

text \<open>
  When no payload address is null and the environment is sound, \<open>malloc\<close> returns null
  only on its two failure paths, and both leave the state alone.
\<close>

lemma malloc_null_unchanged:
  assumes "env_ok s" and "chain (hdr s) (head s) bs"
    and "\<forall>b\<in>set bs. b + sizeof_header_t \<noteq> NULL"
    and "malloc size' s = Some (NULL, s1)"
  shows "s1 = s"
proof (cases "size' = 0")
  case True
  with assms(4) show ?thesis by (simp add: malloc_def)
next
  case False
  have g: "get_free_block size' s = Some (case find (fits s size') bs of None \<Rightarrow> NULL | Some b \<Rightarrow> b)"
    using assms(2) by (simp add: get_free_block_def get_free_block_loop_chain)
  show ?thesis
  proof (cases "find (fits s size') bs")
    case (Some b)
    then have "b \<in> set bs" by (auto simp: find_Some_iff)
    with assms(3) have "b + sizeof_header_t \<noteq> NULL" by simp
    moreover have "b \<noteq> NULL" using assms(2) Some by (rule find_in_chain)
    ultimately show ?thesis
      using assms(4) g Some False by (simp add: malloc_def)
  next
    case None
    show ?thesis
    proof (cases "fst (sbrk (sizeof_header_t + size') s) = sbrk_failed")
      case True
      then have "sbrk (sizeof_header_t + size') s = (sbrk_failed, s)"
        using env_ok_not_failed [OF assms(1)] by (auto simp: sbrk_def split: if_splits)
      with assms(4) g None False show ?thesis
        by (simp add: malloc_def)
    next
      case f: False
      with sbrk_cases [of "sizeof_header_t + size'" s]
      obtain s0 where "sbrk (sizeof_header_t + size') s = (brk s, s0)"
        by auto
      with assms(4) g None False env_ok_not_failed [OF assms(1)] env_ok_payload [OF assms(1)]
      show ?thesis
        by (simp add: malloc_def Let_def)
    qed
  qed
qed

text \<open>A header that points to itself is on no chain.\<close>

lemma self_loop_no_chain: "a \<noteq> NULL \<Longrightarrow> s_next (h a) = a \<Longrightarrow> \<not> chain h a bs"
  by (induction bs) auto

text \<open>Registry consistency, clause by clause.\<close>

lemma registry_consistent_iff:
  "registry_consistent s \<longleftrightarrow>
     (head s = NULL \<longleftrightarrow> tail s = NULL)
     \<and> (head s \<noteq> NULL \<longrightarrow>
          (\<exists>bs. chain (hdr s) (head s) bs \<and> distinct bs \<and> last bs = tail s
                \<and> s_next (hdr s (tail s)) = NULL))"
proof
  assume "registry_consistent s"
  then obtain bs where c: "chain (hdr s) (head s) bs" and d: "distinct bs"
    and t: "tail s = (if bs = [] then NULL else last bs)"
    by (auto simp: registry_consistent_def)
  show "(head s = NULL \<longleftrightarrow> tail s = NULL)
     \<and> (head s \<noteq> NULL \<longrightarrow>
          (\<exists>bs. chain (hdr s) (head s) bs \<and> distinct bs \<and> last bs = tail s
                \<and> s_next (hdr s (tail s)) = NULL))"
  proof (cases bs rule: rev_cases)
    case Nil
    with c t show ?thesis by simp
  next
    case (snoc xs x)
    with c have "chain (hdr s) x [x]"
      using chain_suffix [of "hdr s" "head s" xs x "[]"] by simp
    then have n: "s_next (hdr s x) = NULL" by simp
    from c snoc have "head s \<noteq> NULL" by (cases xs) auto
    moreover from c snoc have "x \<noteq> NULL"
      using chain_nonnull [of "hdr s" "head s" bs] by auto
    ultimately show ?thesis
      using c d t n snoc by auto
  qed
next
  assume r: "(head s = NULL \<longleftrightarrow> tail s = NULL)
     \<and> (head s \<noteq> NULL \<longrightarrow>
          (\<exists>bs. chain (hdr s) (head s) bs \<and> distinct bs \<and> last bs = tail s
                \<and> s_next (hdr s (tail s)) = NULL))"
  show "registry_consistent s"
  proof (cases "head s = NULL")
    case True
    with r have "chain (hdr s) (head s) [] \<and> distinct ([] :: addr list) \<and> tail s = NULL"
      by simp
    then show ?thesis
      unfolding registry_consistent_def by (intro exI [of _ "[]"]) simp
  next
    case False
    with r obtain bs where "chain (hdr s) (head s) bs" "distinct bs" "last bs = tail s"
      by auto
    moreover from this False have "bs \<noteq> []" by auto
    ultimately show ?thesis
      unfolding registry_consistent_def by (intro exI [of _ bs]) simp
  qed
qed

lemma st_abc_chain: "chain (hdr st_abc) (head st_abc) [4096, 4184, 4336]"
  by (simp add: st_abc_def)

section \<open>Facts about the last block of the region\<close>

text \<open>
  A block that ends at the break: its payload address is not null, the test of \<open>free\<close>
  succeeds on it, and the environment grants giving it back.
\<close>

lemma end_block_addr:
  fixes c n :: "64 word"
  assumes "env_ok s" and "uint c + uint sizeof_header_t + uint n = uint (brk s)"
  shows "c + sizeof_header_t \<noteq> NULL" and "c + sizeof_header_t + n = brk s"
    and "c + sizeof_header_t - sizeof_header_t = c"
proof -
  have hi: "uint (brk s) \<le> uint (heap_hi s)" "uint (heap_hi s) < 2 ^ 63"
    using assms(1) env_ok_hi [of s] by (simp_all add: env_ok_def word_le_def)
  have p63: "(2::int) ^ 63 < 2 ^ 64" by simp
  have nn: "0 \<le> uint c" "0 \<le> uint n" by simp_all
  have h24: "uint sizeof_header_t = 24" by (simp add: sizeof_header_t_eq)
  have "uint c + uint sizeof_header_t < 2 ^ 64"
    using assms(2) hi nn p63 by linarith
  then have u1: "uint (c + sizeof_header_t) = uint c + uint sizeof_header_t"
    by (simp add: uint_add_lem [THEN iffD1])
  with nn(1) h24 have "uint (c + sizeof_header_t) \<noteq> 0" by linarith
  then show "c + sizeof_header_t \<noteq> NULL" by auto
  have "uint (c + sizeof_header_t) + uint n < 2 ^ 64"
    using u1 assms(2) hi p63 by linarith
  then have "uint (c + sizeof_header_t + n) = uint (c + sizeof_header_t) + uint n"
    by (simp add: uint_add_lem [THEN iffD1])
  with u1 assms(2) have "uint (c + sizeof_header_t + n) = uint (brk s)" by simp
  then show "c + sizeof_header_t + n = brk s" by (simp add: word_uint_eq_iff)
  show "c + sizeof_header_t - sizeof_header_t = c" by simp
qed

lemma sbrk_release:
  fixes c n :: "64 word"
  assumes "env_ok s" and "heap_lo s \<le> c"
    and "uint c + uint sizeof_header_t + uint n = uint (brk s)"
  shows "sbrk (0 - sizeof_header_t - n) s = (brk s, s\<lparr>brk := c\<rparr>)"
proof -
  let ?t = "sizeof_header_t + n"
  have hi: "uint (brk s) \<le> uint (heap_hi s)" "uint (heap_hi s) < 2 ^ 63"
    using assms(1) env_ok_hi [of s] by (simp_all add: env_ok_def word_le_def)
  have p63: "(2::int) ^ 63 < 2 ^ 64" "(0::int) < 2 ^ 63" by simp_all
  have nn: "0 \<le> uint c" "0 \<le> uint n" by simp_all
  have h24: "uint sizeof_header_t = 24" by (simp add: sizeof_header_t_eq)
  have "uint sizeof_header_t + uint n < 2 ^ 64"
    using assms(3) hi nn p63 by linarith
  then have ut: "uint ?t = uint sizeof_header_t + uint n"
    by (simp add: uint_add_lem [THEN iffD1])
  have tn: "?t \<noteq> 0"
  proof
    assume "?t = 0"
    then have "uint ?t = 0" by simp
    with ut h24 nn(2) show False by linarith
  qed
  have "uint ?t < 2 ^ 63"
    using ut assms(3) hi nn(1) by linarith
  then have st: "sint ?t = uint ?t" by (rule sint_small)
  then have "sint ?t \<noteq> - (2 ^ 63)"
    using p63 uint_ge_0 [of ?t] by linarith
  then have "sint (- ?t) = - sint ?t"
    by (rule sint_neg)
  with st have sm: "sint (- ?t) = - uint ?t"
    by (simp only:)
  have g: "uint (brk s) + sint (- ?t) = uint c"
    using sm ut assms(3) by linarith
  have lo: "uint (heap_lo s) \<le> uint c"
    using assms(2) by (simp add: word_le_def)
  have cle: "uint c \<le> uint (heap_hi s)"
    using assms(3) hi nn h24 by linarith
  have "c + ?t = brk s"
    using end_block_addr(2) [OF assms(1,3)] by (simp add: add.assoc)
  then have bc: "brk s - ?t = c" by (simp add: diff_eq_eq add.commute)
  define i where "i = - ?t"
  have i0: "i \<noteq> 0" using tn unfolding i_def by (simp only: neg_equal_0_iff_equal not_False_eq_True)
  have gi: "uint (brk s) + sint i = uint c" using g by (simp only: i_def)
  have bi: "brk s + i = c" using bc unfolding i_def by (simp only: add_uminus_conv_diff)
  have "sbrk i s = (brk s, s\<lparr>brk := c\<rparr>)"
    using i0 gi bi lo cle by (simp add: sbrk_def)
  moreover have "0 - sizeof_header_t - n = i" by (simp add: i_def)
  ultimately show ?thesis by (simp only:)
qed

lemma chain_drop_last:
  "chain h q (ys @ [p, c]) \<Longrightarrow> chain (h(p := (h p)\<lparr>s_next := NULL\<rparr>)) q (ys @ [p])"
proof (induction ys arbitrary: q)
  case Nil
  then show ?case by simp
next
  case (Cons y ys)
  from Cons.prems have "distinct (y # ys @ [p, c])"
    using chain_distinct by fastforce
  then have "y \<noteq> p" by auto
  with Cons show ?case by auto
qed

lemma chain_snoc_new:
  assumes "chain h p (xs @ [t])" and "n \<noteq> NULL" and "n \<notin> set (xs @ [t])" and "s_next v = NULL"
  shows "chain ((h(n := v))(t := (h t)\<lparr>s_next := n\<rparr>)) p (xs @ [t, n])"
  using assms(1,3)
proof (induction xs arbitrary: p)
  case Nil
  with assms(2,4) show ?case by auto
next
  case (Cons x xs)
  from Cons.prems(1) have "distinct (x # xs @ [t])"
    using chain_distinct by fastforce
  then have "x \<noteq> t" by auto
  moreover from Cons.prems(2) have "x \<noteq> n" by auto
  ultimately show ?case
    using Cons by auto
qed

section \<open>Facts about the layout\<close>

lemma block_end_gt: "uint b < block_end h b"
proof -
  have "uint sizeof_header_t = 24" by (simp add: sizeof_header_t_eq)
  with uint_ge_0 [of "s_size (h b)"] show ?thesis
    unfolding block_end_def by linarith
qed

lemma laid_out_le: "laid_out h lo bs hi \<Longrightarrow> lo \<le> hi"
proof (induction bs arbitrary: lo)
  case Nil
  then show ?case by simp
next
  case (Cons b bs)
  then have "block_end h b \<le> hi" "lo \<le> uint b" by auto
  with block_end_gt [of b h] show ?case by linarith
qed

lemma laid_out_mono: "laid_out h lo bs hi \<Longrightarrow> hi \<le> hi' \<Longrightarrow> laid_out h lo bs hi'"
  by (induction bs arbitrary: lo) auto

lemma laid_out_snoc:
  "laid_out h lo (xs @ [b]) hi = (laid_out h lo xs (uint b) \<and> block_end h b \<le> hi)"
  by (induction xs arbitrary: lo) auto

lemma laid_out_sizes:
  "\<forall>b\<in>set bs. s_size (h' b) = s_size (h b) \<Longrightarrow> laid_out h' lo bs hi = laid_out h lo bs hi"
  by (induction bs arbitrary: lo) (auto simp: block_end_def)

lemma laid_out_bounds:
  "laid_out h lo bs hi \<Longrightarrow> b \<in> set bs \<Longrightarrow> lo \<le> uint b \<and> block_end h b \<le> hi"
proof (induction bs arbitrary: lo)
  case Nil
  then show ?case by simp
next
  case (Cons a bs)
  show ?case
  proof (cases "b = a")
    case True
    with Cons.prems laid_out_le [of h "block_end h a" bs hi] show ?thesis by simp
  next
    case False
    with Cons.prems have "b \<in> set bs" "laid_out h (block_end h a) bs hi" "lo \<le> uint a"
      by auto
    with Cons.IH [of "block_end h a"] block_end_gt [of a h] show ?thesis
      by force
  qed
qed

lemma laid_out_inner_end:
  assumes "laid_out h lo (xs @ [b]) hi" and "a \<in> set xs"
  shows "block_end h a < hi"
proof -
  from assms(1) have "laid_out h lo xs (uint b)" "block_end h b \<le> hi"
    by (simp_all add: laid_out_snoc)
  with assms(2) have "block_end h a \<le> uint b"
    using laid_out_bounds [of h lo xs "uint b" a] by simp
  with block_end_gt [of b h] \<open>block_end h b \<le> hi\<close> show ?thesis by linarith
qed

lemma valid_block_below_brk:
  assumes "valid_state s bs" and "b \<in> set bs"
  shows "uint (heap_lo s) \<le> uint b" and "block_end (hdr s) b \<le> uint (brk s)"
  using assms laid_out_bounds [of "hdr s" "uint (heap_lo s)" bs "uint (brk s)" b]
  by (simp_all add: valid_state_def)

lemma valid_brk_fresh:
  assumes "valid_state s bs"
  shows "brk s \<notin> set bs" and "brk s \<noteq> NULL"
proof -
  show "brk s \<notin> set bs"
  proof
    assume "brk s \<in> set bs"
    with assms have "block_end (hdr s) (brk s) \<le> uint (brk s)"
      by (rule valid_block_below_brk)
    with block_end_gt [of "brk s" "hdr s"] show False by linarith
  qed
  from assms have "0 < heap_lo s" "heap_lo s \<le> brk s"
    by (simp_all add: valid_state_def env_ok_def)
  then show "brk s \<noteq> NULL" by auto
qed

lemma valid_state_mem: "valid_state (s\<lparr>mem := m\<rparr>) bs = valid_state s bs"
  by (simp add: valid_state_def env_ok_def)

lemma valid_registry_consistent: "valid_state s bs \<Longrightarrow> registry_consistent s"
  unfolding valid_state_def registry_consistent_def
  using chain_distinct by blast

lemma valid_st_empty: "valid_state st_empty []"
  by (simp add: valid_state_def env_ok_def st_empty_def sizeof_header_t_eq)

lemma valid_st_abc: "valid_state st_abc [4096, 4184, 4336]"
  by (simp add: valid_state_def env_ok_def st_abc_def sizeof_header_t_eq block_end_def)

section \<open>Zero sizes\<close>

text \<open>
  C8. \<open>malloc(0)\<close>, \<open>calloc(0, n)\<close> and \<open>calloc(n, 0)\<close> return the null pointer and
  leave the whole state (head, tail, break, every header, every byte) as it was.
\<close>

theorem zero_size_no_allocation:
  "malloc 0 s = Some (NULL, s) \<and> calloc 0 nsize s = Some (NULL, s) \<and> calloc num 0 s = Some (NULL, s)"
  by (simp add: malloc_def calloc_def)

section \<open>Reuse of a free block\<close>

text \<open>
  C1. Let the registry be the chain \<open>bs\<close> from \<open>head\<close>, let the requested size be
  nonzero, and let \<open>b\<close> be the first header of \<open>bs\<close> that is free and at least as large
  as the request (\<open>find\<close> returns the first element that passes the test). Then
  \<open>malloc\<close> returns the payload address of \<open>b\<close>, and the new state is the old one with
  \<open>is_free\<close> of \<open>b\<close> set to 0: size and next of \<open>b\<close>, every other header, every payload
  byte, head, tail and the break are as before.
\<close>

theorem malloc_reuses_first_fit:
  assumes "size' \<noteq> 0"
    and "chain (hdr s) (head s) bs"
    and "find (fits s size') bs = Some b"
  shows "malloc size' s =
           Some (b + sizeof_header_t, s\<lparr>hdr := (hdr s)(b := (hdr s b)\<lparr>s_is_free := 0\<rparr>)\<rparr>)"
proof -
  have "get_free_block size' s = Some b"
    using assms by (simp add: get_free_block_def get_free_block_loop_chain)
  moreover have "b \<noteq> NULL"
    using assms(2,3) by (rule find_in_chain)
  ultimately show ?thesis
    using assms(1) by (simp add: malloc_def)
qed

theorem malloc_reuses_first_fit_witness:
  "(32 :: size_t) \<noteq> 0
   \<and> chain (hdr st_abc) (head st_abc) [4096, 4184, 4336]
   \<and> find (fits st_abc 32) [4096, 4184, 4336] = Some 4184
   \<and> malloc 32 st_abc =
       Some (4184 + sizeof_header_t,
             st_abc\<lparr>hdr := (hdr st_abc)(4184 := (hdr st_abc 4184)\<lparr>s_is_free := 0\<rparr>)\<rparr>)"
proof -
  have h1: "(32 :: size_t) \<noteq> 0" by simp
  have h2: "chain (hdr st_abc) (head st_abc) [4096, 4184, 4336]"
    by (simp add: st_abc_def)
  have h3: "find (fits st_abc 32) [4096, 4184, 4336] = Some 4184"
    by (simp add: st_abc_def fits_def)
  from h1 h2 h3 malloc_reuses_first_fit [OF h1 h2 h3] show ?thesis
    by blast
qed

section \<open>Release of the tail block\<close>

text \<open>
  C2. Let the registry be the chain \<open>pre @ [p, c]\<close> from \<open>head\<close> (at least two blocks),
  let \<open>c\<close> be \<open>tail\<close>, let \<open>c\<close> lie in the region and let the byte after its payload be
  the break, in a sound environment. Then \<open>free\<close> of the payload address of \<open>c\<close>
  returns the old state with \<open>next\<close> of \<open>p\<close> (the header whose \<open>next\<close> was \<open>c\<close>) set to
  null, \<open>tail\<close> set to \<open>p\<close>, and the break lowered by the header size plus the payload
  size of \<open>c\<close>.
\<close>

theorem free_tail_block:
  assumes "chain (hdr s) (head s) (pre @ [p, c])" and "tail s = c"
    and "env_ok s" and "heap_lo s \<le> c"
    and "uint c + uint sizeof_header_t + uint (s_size (hdr s c)) = uint (brk s)"
  shows "free (c + sizeof_header_t) s =
           Some (s\<lparr>hdr := (hdr s)(p := (hdr s p)\<lparr>s_next := NULL\<rparr>), tail := p,
                   brk := brk s - (sizeof_header_t + s_size (hdr s c))\<rparr>)"
proof -
  let ?n = "s_size (hdr s c)"
  let ?s1 = "s\<lparr>hdr := (hdr s)(p := (hdr s p)\<lparr>s_next := NULL\<rparr>), tail := p\<rparr>"
  have pn: "c + sizeof_header_t \<noteq> NULL" and e: "c + sizeof_header_t + ?n = brk s"
    using assms(3,5) by (rule end_block_addr)+
  have d: "distinct (pre @ [p, c])"
    using assms(1) by (rule chain_distinct)
  have hn: "head s \<noteq> c"
    using assms(1) d by (cases pre) auto
  have pc: "p \<noteq> c" using d by simp
  have fl: "free_loop (head s) s = Some ?s1"
    using assms(1,2) by (rule free_loop_chain)
  have "env_ok ?s1" "heap_lo ?s1 \<le> c"
    "uint c + uint sizeof_header_t + uint ?n = uint (brk ?s1)"
    using assms(3,4,5) by (simp_all add: env_ok_def)
  then have sb: "sbrk (0 - sizeof_header_t - ?n) ?s1 = (brk ?s1, ?s1\<lparr>brk := c\<rparr>)"
    by (rule sbrk_release)
  have bc: "brk s - (sizeof_header_t + ?n) = c"
    unfolding e [symmetric] by simp
  have "free (c + sizeof_header_t) s = Some (?s1\<lparr>brk := c\<rparr>)"
    using pn e hn pc fl sb assms(2) by (simp add: free_def sbrk_def [of 0])
  with bc show ?thesis by simp
qed

theorem free_tail_block_witness:
  "chain (hdr st_abc) (head st_abc) ([4096] @ [4184, 4336]) \<and> tail st_abc = 4336
   \<and> env_ok st_abc \<and> heap_lo st_abc \<le> 4336
   \<and> uint (4336 :: addr) + uint sizeof_header_t + uint (s_size (hdr st_abc 4336)) = uint (brk st_abc)
   \<and> free (4336 + sizeof_header_t) st_abc =
       Some (st_abc\<lparr>hdr := (hdr st_abc)(4184 := (hdr st_abc 4184)\<lparr>s_next := NULL\<rparr>), tail := 4184,
                     brk := brk st_abc - (sizeof_header_t + s_size (hdr st_abc 4336))\<rparr>)"
proof -
  have h1: "chain (hdr st_abc) (head st_abc) ([4096] @ [4184, 4336])"
    by (simp add: st_abc_def)
  have h2: "tail st_abc = 4336"
    by (simp add: st_abc_def)
  have h3: "env_ok st_abc"
    by (simp add: env_ok_def st_abc_def sizeof_header_t_eq)
  have h4: "heap_lo st_abc \<le> 4336"
    by (simp add: st_abc_def)
  have h5: "uint (4336 :: addr) + uint sizeof_header_t + uint (s_size (hdr st_abc 4336)) = uint (brk st_abc)"
    by (simp add: st_abc_def sizeof_header_t_eq)
  from h1 h2 h3 h4 h5 free_tail_block [OF h1 h2 h3 h4 h5] show ?thesis
    by blast
qed

section \<open>Allocate, then release, from the empty registry\<close>

text \<open>
  C3. The claim is that from an empty registry, for every nonzero size, \<open>malloc\<close>
  followed by \<open>free\<close> of the returned pointer puts the break back and leaves head and
  tail null. \<open>malloc\<close> adds the header size to the request without a check. On the empty
  state \<open>st_empty\<close>, for the request \<open>2^64 - 100\<close> the sum is \<open>2^64 - 76\<close>, which \<open>sbrk\<close>
  reads as \<open>-76\<close>: the break would go below the start of the heap, so it does not move
  and \<open>sbrk\<close> reports success. \<open>malloc\<close> writes a header at the break 4096, makes it head
  and tail, and returns 4120. In \<open>free\<close> the payload address plus the recorded size
  wraps to 4020, not the break, so the block is only marked free: head and tail are
  still 4096, not null.
\<close>

theorem malloc_free_wrapped_request:
  "head st_empty = NULL \<and> tail st_empty = NULL
   \<and> (\<exists>s1 s2. malloc (- 100) st_empty = Some (4120, s1) \<and> free 4120 s1 = Some s2
         \<and> brk s2 = brk st_empty \<and> head s2 = 4096 \<and> tail s2 = 4096)"
proof -
  define s1 where "s1 = st_empty\<lparr>
      hdr := hdr_empty(4096 := \<lparr>s_size = - 100, s_is_free = 0, s_next = NULL\<rparr>),
      head := 4096, tail := 4096\<rparr>"
  have g: "get_free_block (- 100) st_empty = Some NULL"
    by (simp add: get_free_block_def get_free_block_loop.simps st_empty_def)
  have sb: "sbrk (sizeof_header_t + (- 100)) st_empty = (4096, st_empty)"
    by (simp add: sbrk_def sizeof_header_t_eq st_empty_def)
  have m: "malloc (- 100) st_empty = Some (4120, s1)"
    using g sb
    by (simp add: malloc_def sbrk_failed_def Let_def)
       (simp add: s1_def st_empty_def sizeof_header_t_eq fun_eq_iff hdr_empty_def)
  have f: "free 4120 s1 =
      Some (s1\<lparr>hdr := (hdr s1)(4096 := (hdr s1 4096)\<lparr>s_is_free := 1\<rparr>)\<rparr>)"
    by (simp add: free_def sbrk_def s1_def st_empty_def sizeof_header_t_eq)
  have "head st_empty = NULL" "tail st_empty = NULL"
    by (simp_all add: st_empty_def)
  moreover have "brk s1 = brk st_empty" "head s1 = 4096" "tail s1 = 4096"
    by (simp_all add: s1_def)
  ultimately show ?thesis
    using m f by simp
qed

section \<open>Release of an interior block\<close>

text \<open>
  C4. Let \<open>b\<close> be a header whose payload address is not null and whose payload does not
  end at the break. Then \<open>free\<close> of the payload address of \<open>b\<close> returns the old state
  with \<open>is_free\<close> of \<open>b\<close> set to 1 and nothing else changed: head, tail, the break,
  size and next of every header, \<open>is_free\<close> of every other header and every payload
  byte are as before.
\<close>

theorem free_interior_block:
  assumes "b + sizeof_header_t \<noteq> NULL"
    and "b + sizeof_header_t + s_size (hdr s b) \<noteq> brk s"
  shows "free (b + sizeof_header_t) s = Some (s\<lparr>hdr := (hdr s)(b := (hdr s b)\<lparr>s_is_free := 1\<rparr>)\<rparr>)"
  using assms by (simp add: free_def sbrk_def)

theorem free_interior_block_witness:
  "(4096 :: addr) + sizeof_header_t \<noteq> NULL
   \<and> 4096 + sizeof_header_t + s_size (hdr st_abc 4096) \<noteq> brk st_abc
   \<and> free (4096 + sizeof_header_t) st_abc =
       Some (st_abc\<lparr>hdr := (hdr st_abc)(4096 := (hdr st_abc 4096)\<lparr>s_is_free := 1\<rparr>)\<rparr>)"
proof -
  have h1: "(4096 :: addr) + sizeof_header_t \<noteq> NULL"
    by (simp add: sizeof_header_t_eq)
  have h2: "4096 + sizeof_header_t + s_size (hdr st_abc 4096) \<noteq> brk st_abc"
    by (simp add: sizeof_header_t_eq st_abc_def)
  from h1 h2 free_interior_block [OF h1 h2] show ?thesis
    by blast
qed

section \<open>Growing a block with realloc\<close>

text \<open>
  C5. Let \<open>block\<close> be a payload address whose header records the size \<open>m\<close>, let the
  requested size be larger than \<open>m\<close>, and let \<open>realloc\<close> return a pointer \<open>ret\<close> that
  is not null. Then \<open>ret\<close> is the pointer returned by \<open>malloc\<close> for the new size, the
  final state is the result of \<open>free\<close> on \<open>block\<close> after the copy, and each of the first
  \<open>m\<close> bytes from \<open>ret\<close> in the final state is the byte at the same offset from \<open>block\<close>
  in the state of the call.
\<close>

theorem realloc_grow:
  assumes "realloc block size' s = Some (ret, s')" and "ret \<noteq> NULL"
    and "s_size (hdr s (block - sizeof_header_t)) < size'"
  shows "\<exists>s1. malloc size' s = Some (ret, s1)
           \<and> free block (memcpy ret block (s_size (hdr s1 (block - sizeof_header_t))) s1) = Some s'
           \<and> (\<forall>i. i < s_size (hdr s (block - sizeof_header_t)) \<longrightarrow> mem s' (ret + i) = mem s (block + i))"
proof -
  let ?h = "block - sizeof_header_t"
  from assms obtain s1 where m: "malloc size' s = Some (ret, s1)"
    and f: "free block (memcpy ret block (s_size (hdr s1 ?h)) s1) = Some s'"
    by (auto simp: realloc_def Let_def split: if_splits option.splits)
  have n: "s_size (hdr s ?h) \<le> s_size (hdr s1 ?h)"
    using malloc_size_field [OF m, of ?h] assms(3) by auto
  have "mem s' (ret + i) = mem s (block + i)" if "i < s_size (hdr s ?h)" for i
  proof -
    from that n have "i < s_size (hdr s1 ?h)" by simp
    then have "mem (memcpy ret block (s_size (hdr s1 ?h)) s1) (ret + i) = mem s1 (block + i)"
      by (simp add: memcpy_def)
    with free_mem [OF f] malloc_mem [OF m] show ?thesis by simp
  qed
  with m f show ?thesis by blast
qed

theorem realloc_grow_witness:
  "\<exists>s'. realloc 4120 100 st_abc = Some (4208, s') \<and> (4208 :: addr) \<noteq> NULL
     \<and> s_size (hdr st_abc (4120 - sizeof_header_t)) < 100
     \<and> (\<exists>s1. malloc 100 st_abc = Some (4208, s1)
           \<and> free 4120 (memcpy 4208 4120 (s_size (hdr s1 (4120 - sizeof_header_t))) s1) = Some s'
           \<and> (\<forall>i. i < s_size (hdr st_abc (4120 - sizeof_header_t)) \<longrightarrow>
                 mem s' (4208 + i) = mem st_abc (4120 + i)))"
proof -
  have g: "get_free_block 100 st_abc = Some 4184"
    using get_free_block_loop_chain [OF st_abc_chain, of 100]
    by (simp add: get_free_block_def) (simp add: st_abc_def fits_def)
  have m: "malloc 100 st_abc = Some (4208, st_abc\<lparr>hdr := (hdr st_abc)(4184 := (hdr st_abc 4184)\<lparr>s_is_free := 0\<rparr>)\<rparr>)"
    using g by (simp add: malloc_def sizeof_header_t_eq)
  have "\<exists>s'. realloc 4120 100 st_abc = Some (4208, s')"
    using m by (simp add: realloc_def free_def sbrk_def memcpy_def sizeof_header_t_eq st_abc_def Let_def)
  then obtain s' where h1: "realloc 4120 100 st_abc = Some (4208, s')" ..
  have h2: "(4208 :: addr) \<noteq> NULL" by simp
  have h3: "s_size (hdr st_abc (4120 - sizeof_header_t)) < 100"
    by (simp add: sizeof_header_t_eq st_abc_def)
  from h1 h2 h3 realloc_grow [OF h1 h2 h3] show ?thesis
    by blast
qed

section \<open>A failed realloc\<close>

text \<open>
  C6. Let the environment be sound, the registry a chain from \<open>head\<close> in which no header
  has a null payload address, \<open>block\<close> a payload address that is not null, and the
  requested size larger than the size in the header of \<open>block\<close>. If \<open>malloc\<close> for the new
  size returns null, then \<open>realloc\<close> returns null and the state after \<open>realloc\<close>, like the
  state after that \<open>malloc\<close>, is the state of the call: every header, every payload
  byte, head, tail and the break are untouched.
\<close>

theorem realloc_failure:
  assumes "env_ok s" and "chain (hdr s) (head s) bs"
    and "\<forall>b\<in>set bs. b + sizeof_header_t \<noteq> NULL"
    and "block \<noteq> NULL"
    and "s_size (hdr s (block - sizeof_header_t)) < size'"
    and "malloc size' s = Some (NULL, s1)"
  shows "realloc block size' s = Some (NULL, s) \<and> s1 = s"
proof -
  have "s1 = s"
    using assms(1,2,3,6) by (rule malloc_null_unchanged)
  moreover have "size' \<noteq> 0"
    using assms(5) by auto
  ultimately show ?thesis
    using assms(4,5,6) by (simp add: realloc_def Let_def)
qed

theorem realloc_failure_witness:
  "env_ok st_abc \<and> chain (hdr st_abc) (head st_abc) [4096, 4184, 4336]
   \<and> (4096 :: addr) + sizeof_header_t \<noteq> NULL \<and> (4184 :: addr) + sizeof_header_t \<noteq> NULL
   \<and> (4336 :: addr) + sizeof_header_t \<noteq> NULL
   \<and> (4120 :: addr) \<noteq> NULL
   \<and> s_size (hdr st_abc (4120 - sizeof_header_t)) < 2000000
   \<and> malloc 2000000 st_abc = Some (NULL, st_abc)
   \<and> realloc 4120 2000000 st_abc = Some (NULL, st_abc)"
proof -
  have h1: "env_ok st_abc"
    by (simp add: env_ok_def st_abc_def sizeof_header_t_eq)
  have h2: "chain (hdr st_abc) (head st_abc) [4096, 4184, 4336]"
    by (simp add: st_abc_def)
  have h3: "\<forall>b\<in>set [4096, 4184, 4336 :: addr]. b + sizeof_header_t \<noteq> NULL"
    by (simp add: sizeof_header_t_eq)
  have h4: "(4120 :: addr) \<noteq> NULL" by simp
  have h5: "s_size (hdr st_abc (4120 - sizeof_header_t)) < 2000000"
    by (simp add: sizeof_header_t_eq st_abc_def)
  have g: "get_free_block 2000000 st_abc = Some NULL"
    using get_free_block_loop_chain [OF h2, of 2000000]
    by (simp add: get_free_block_def) (simp add: st_abc_def fits_def)
  have sb: "sbrk (sizeof_header_t + 2000000) st_abc = (sbrk_failed, st_abc)"
    by (simp add: sbrk_def sizeof_header_t_eq st_abc_def)
  have h6: "malloc 2000000 st_abc = Some (NULL, st_abc)"
    using g sb by (simp add: malloc_def)
  from h3 have h3': "(4096 :: addr) + sizeof_header_t \<noteq> NULL"
    "(4184 :: addr) + sizeof_header_t \<noteq> NULL" "(4336 :: addr) + sizeof_header_t \<noteq> NULL"
    by simp_all
  from h1 h2 h3' h4 h5 h6 realloc_failure [OF h1 h2 h3 h4 h5 h6] show ?thesis
    by blast
qed

section \<open>Overflow in calloc\<close>

text \<open>
  C7. For a nonzero count and a nonzero element size: when the product of the two does
  not fit in 64 bits, \<open>calloc\<close> returns null and the state is unchanged; otherwise
  \<open>calloc\<close> goes on to \<open>malloc\<close> with the product; and the test of main.c, that dividing
  the wrapped product by the count does not give back the element size, holds exactly
  when the product does not fit.
\<close>

theorem calloc_overflow:
  assumes "num \<noteq> 0" and "nsize \<noteq> 0"
  shows "(2 ^ 64 \<le> unat num * unat nsize \<longrightarrow> calloc num nsize s = Some (NULL, s))
       \<and> (unat num * unat nsize < 2 ^ 64 \<longrightarrow>
            calloc num nsize s =
              (case malloc (num * nsize) s of
                 None \<Rightarrow> None
               | Some (block, s1) \<Rightarrow>
                   if block = NULL then Some (NULL, s1)
                   else Some (block, memset block 0 (num * nsize) s1)))
       \<and> ((nsize \<noteq> (num * nsize) div num) = (2 ^ 64 \<le> unat num * unat nsize))"
  using assms word_mul_overflow_check [OF assms(1), of nsize]
  by (simp add: calloc_def Let_def)

theorem calloc_overflow_witness:
  "(4294967296 :: size_t) \<noteq> 0
   \<and> (2 ^ 64 \<le> unat (4294967296 :: size_t) * unat (4294967296 :: size_t))
   \<and> calloc 4294967296 4294967296 st_abc = Some (NULL, st_abc)
   \<and> (4294967296 :: size_t) \<noteq> (4294967296 * 4294967296) div 4294967296"
proof -
  have h1: "(4294967296 :: size_t) \<noteq> 0" by simp
  have h2: "2 ^ 64 \<le> unat (4294967296 :: size_t) * unat (4294967296 :: size_t)" by simp
  from h1 h2 calloc_overflow [OF h1 h1, of st_abc] show ?thesis
    by blast
qed

section \<open>The size of the header and the offset of the payload\<close>

text \<open>
  C9. The claim is that the header size is a multiple of 16, so that a payload lies a
  multiple of 16 bytes after its header. On LP64 the struct of \<open>union header\<close> takes 24
  bytes (8 for \<open>size\<close>, 4 for \<open>is_free\<close>, 4 of padding, 8 for \<open>next\<close>), more than the 16
  bytes of \<open>ALIGH\<close>, so the union takes 24 bytes: not a multiple of 16. \<open>malloc(1)\<close> on
  the empty registry returns the old break plus 24.
\<close>

theorem header_size_on_LP64:
  "sizeof_union_header LP64 = 24 \<and> \<not> 16 dvd sizeof_union_header LP64
   \<and> (\<exists>s1. malloc 1 st_empty = Some (brk st_empty + 24, s1))"
proof -
  have "sizeof_union_header LP64 = 24"
    by (simp add: sizeof_union_header_def sizeof_struct_s_def alignof_struct_s_def
          sizeof_ALIGH_def align_up_def LP64_def)
  moreover have "get_free_block 1 st_empty = Some NULL"
    by (simp add: get_free_block_def get_free_block_loop.simps st_empty_def)
  then have "\<exists>s1. malloc 1 st_empty = Some (brk st_empty + 24, s1)"
    by (simp add: malloc_def sbrk_def sbrk_failed_def sizeof_header_t_eq st_empty_def Let_def)
  ultimately show ?thesis by simp
qed

text \<open>With 4-byte \<open>size_t\<close> and pointers the struct takes 12 bytes and the union 16.\<close>

lemma header_size_on_ILP32: "sizeof_union_header ILP32 = 16"
  by (simp add: sizeof_union_header_def sizeof_struct_s_def alignof_struct_s_def
        sizeof_ALIGH_def align_up_def ILP32_def)

section \<open>Registry consistency and a request that wraps around\<close>

text \<open>
  C10. The claim is that every operation preserves registry consistency. \<open>malloc\<close>
  adds the header size to the request without a check. For the request
  \<open>2^64 - sizeof(header_t)\<close> the sum is 0: \<open>sbrk(0)\<close> reports the break and does not move
  it, and the new header is written at the break. The registry of \<open>st_abc\<close> is
  consistent before and after this call. The next growing \<open>malloc\<close> gets the same break
  from \<open>sbrk\<close>, writes its header over the previous one and links \<open>tail->s.next\<close> to
  it; \<open>tail\<close> is that very header, which now points to itself. The registry is no
  longer consistent, and both calls returned the same payload address.
\<close>

theorem malloc_breaks_registry:
  "\<exists>p1 s1 p2 s2. malloc (- sizeof_header_t) st_abc = Some (p1, s1) \<and> registry_consistent st_abc
      \<and> registry_consistent s1 \<and> malloc 200 s1 = Some (p2, s2) \<and> \<not> registry_consistent s2"
proof -
  have c0: "chain (hdr st_abc) (head st_abc) [4096, 4184, 4336]"
    by (simp add: st_abc_def)
  have r0: "registry_consistent st_abc"
    unfolding registry_consistent_def
    using c0 by (intro exI [of _ "[4096, 4184, 4336]"]) (simp add: st_abc_def)
  define s1 where "s1 = st_abc\<lparr>
      hdr := (hdr st_abc)
        (4392 := \<lparr>s_size = - 24, s_is_free = 0, s_next = NULL\<rparr>,
         4336 := \<lparr>s_size = 32, s_is_free = 0, s_next = 4392\<rparr>),
      tail := 4392\<rparr>"
  have g0: "get_free_block (- sizeof_header_t) st_abc = Some NULL"
    using get_free_block_loop_chain [OF c0, of "- sizeof_header_t"]
    by (simp add: get_free_block_def) (simp add: st_abc_def fits_def sizeof_header_t_eq)
  have m1: "malloc (- sizeof_header_t) st_abc = Some (4416, s1)"
    using g0
    by (simp add: malloc_def sbrk_def sbrk_failed_def Let_def)
       (simp add: s1_def st_abc_def sizeof_header_t_eq fun_eq_iff hdr_empty_def)
  have c1: "chain (hdr s1) (head s1) [4096, 4184, 4336, 4392]"
    by (simp add: s1_def st_abc_def)
  have r1: "registry_consistent s1"
    unfolding registry_consistent_def
    using c1 by (intro exI [of _ "[4096, 4184, 4336, 4392]"]) (simp add: s1_def st_abc_def)
  define s2 where "s2 = s1\<lparr>
      brk := 4616,
      hdr := (hdr s1)(4392 := \<lparr>s_size = 200, s_is_free = 0, s_next = 4392\<rparr>)\<rparr>"
  have g1: "get_free_block 200 s1 = Some NULL"
    using get_free_block_loop_chain [OF c1, of 200]
    by (simp add: get_free_block_def) (simp add: s1_def st_abc_def fits_def)
  have m2: "malloc 200 s1 = Some (4416, s2)"
    using g1
    by (simp add: malloc_def sbrk_def sbrk_failed_def Let_def sizeof_header_t_eq)
       (simp add: s2_def s1_def st_abc_def fun_eq_iff hdr_empty_def)
  have "\<not> registry_consistent s2"
  proof
    assume "registry_consistent s2"
    moreover have "head s2 = 4096" by (simp add: s2_def s1_def st_abc_def)
    ultimately obtain bs where "chain (hdr s2) 4096 bs"
      by (auto simp: registry_consistent_def)
    then obtain bs' where "chain (hdr s2) 4392 bs'"
      by (cases bs; cases "tl bs"; cases "tl (tl bs)") (auto simp: s2_def s1_def st_abc_def)
    moreover have "s_next (hdr s2 4392) = 4392"
      by (simp add: s2_def)
    ultimately show False
      using self_loop_no_chain [of 4392 "hdr s2"] by simp
  qed
  with m1 r0 r1 m2 show ?thesis by blast
qed

section \<open>Requests that do not wrap around keep the state valid\<close>

text \<open>
  The defect seen in C3 and C10 needs a request for which header size plus request
  leaves the positive range of \<open>intptr_t\<close>. For every other request, and for \<open>free\<close> and \<open>realloc\<close>
  on the payload of a block of the registry, the four operations return and take a
  valid state to a valid state; a valid state has a consistent registry, and the empty
  state is valid.
\<close>

lemma malloc_preserves_valid:
  assumes v: "valid_state s bs" and fit: "uint sizeof_header_t + uint size' < 2 ^ 63"
  shows "\<exists>p s' bs'. malloc size' s = Some (p, s') \<and> valid_state s' bs' \<and> set bs \<subseteq> set bs'"
proof (cases "size' = 0")
  case True
  then have "malloc size' s = Some (NULL, s)" by (simp add: malloc_def)
  with v show ?thesis by blast
next
  case nz: False
  from v have c: "chain (hdr s) (head s) bs" and e: "env_ok s"
    and t: "tail s = (if bs = [] then NULL else last bs)"
    and l: "laid_out (hdr s) (uint (heap_lo s)) bs (uint (brk s))"
    and lo: "0 < heap_lo s"
    by (simp_all add: valid_state_def)
  have g: "get_free_block size' s = Some (case find (fits s size') bs of None \<Rightarrow> NULL | Some b \<Rightarrow> b)"
    using c by (simp add: get_free_block_def get_free_block_loop_chain)
  show ?thesis
  proof (cases "find (fits s size') bs")
    case (Some b)
    then have bn: "b \<noteq> NULL" using c find_in_chain by blast
    let ?s = "s\<lparr>hdr := (hdr s)(b := (hdr s b)\<lparr>s_is_free := 0\<rparr>)\<rparr>"
    have m: "malloc size' s = Some (b + sizeof_header_t, ?s)"
      using g Some bn nz by (simp add: malloc_def)
    have "chain (hdr ?s) (head ?s) bs"
      using c by (simp add: chain_upd_same_next)
    moreover have "laid_out (hdr ?s) (uint (heap_lo ?s)) bs (uint (brk ?s))"
      using l laid_out_sizes [of bs "hdr ?s" "hdr s"] by simp
    ultimately have "valid_state ?s bs \<and> set bs \<subseteq> set bs"
      using e t lo by (simp add: valid_state_def env_ok_def)
    with m show ?thesis by blast
  next
    case None
    let ?total = "sizeof_header_t + size'"
    show ?thesis
    proof (cases "fst (sbrk ?total s) = sbrk_failed")
      case True
      then have "sbrk ?total s = (sbrk_failed, s)"
        using env_ok_not_failed [OF e] by (auto simp: sbrk_def split: if_splits)
      with g None nz have "malloc size' s = Some (NULL, s)"
        by (simp add: malloc_def)
      with v show ?thesis by blast
    next
      case False
      have p64: "(2::int) ^ 63 < 2 ^ 64" by simp
      have ut: "uint ?total = uint sizeof_header_t + uint size'"
        using fit p64 by (simp add: uint_add_lem [THEN iffD1])
      have h24: "uint sizeof_header_t = 24" by (simp add: sizeof_header_t_eq)
      have tz: "?total \<noteq> 0"
      proof
        assume "?total = 0"
        then have "uint ?total = 0" by simp
        with ut h24 uint_ge_0 [of size'] show False by linarith
      qed
      have st: "sint ?total = uint ?total"
        using fit ut by (intro sint_small) simp
      have sp: "0 < sint ?total"
        using st ut h24 uint_ge_0 [of size'] by linarith
      have sb: "sbrk ?total s = (brk s, s\<lparr>brk := brk s + ?total\<rparr>)"
        and gr2: "uint (brk s) + sint ?total \<le> uint (heap_hi s)"
        using sp False by (rule sbrk_grow)+
      have "uint (heap_lo s) \<le> uint (brk s)"
        using e by (simp add: env_ok_def word_le_def)
      with sp have gr1: "uint (heap_lo s) \<le> uint (brk s) + sint ?total"
        by linarith
      note gr = gr1 gr2
      have "uint (brk s) + sint ?total < 2 ^ 64"
        using gr env_ok_hi [OF e] p64 by linarith
      moreover have "0 \<le> uint (brk s) + sint ?total"
        using gr uint_ge_0 [of "heap_lo s"] by linarith
      ultimately have ub: "uint (brk s + ?total) = uint (brk s) + sint ?total"
        by (intro uint_add_sint)
      have fresh: "brk s \<notin> set bs" "brk s \<noteq> NULL"
        using v by (rule valid_brk_fresh)+
      let ?v = "(hdr s (brk s))\<lparr>s_size := size', s_is_free := 0, s_next := NULL\<rparr>"
      show ?thesis
      proof (cases bs rule: rev_cases)
        case Nil
        with c t have ht: "head s = NULL" "tail s = NULL" by simp_all
        let ?s = "s\<lparr>brk := brk s + ?total, hdr := (hdr s)(brk s := ?v), head := brk s, tail := brk s\<rparr>"
        have m: "malloc size' s = Some (brk s + sizeof_header_t, ?s)"
          using g None nz sb ht env_ok_not_failed [OF e] by (simp add: malloc_def Let_def)
        have "env_ok ?s"
          using e gr ub by (simp add: env_ok_def word_le_def)
        moreover have "chain (hdr ?s) (head ?s) [brk s]"
          using fresh by simp
        moreover have "laid_out (hdr ?s) (uint (heap_lo ?s)) [brk s] (uint (brk ?s))"
          using e ub st ut by (simp add: block_end_def env_ok_def word_le_def)
        ultimately have "valid_state ?s [brk s] \<and> set bs \<subseteq> set [brk s]"
          using lo Nil by (simp add: valid_state_def)
        with m show ?thesis by blast
      next
        case (snoc xs x)
        with c t have tx: "tail s = x" and xn: "x \<noteq> NULL"
          using chain_nonnull [OF c] by auto
        from c snoc have hn: "head s \<noteq> NULL"
          by (cases xs) auto
        from fresh snoc have xb: "x \<noteq> brk s" by auto
        let ?h = "((hdr s)(brk s := ?v))(x := (hdr s x)\<lparr>s_next := brk s\<rparr>)"
        let ?s = "s\<lparr>brk := brk s + ?total, hdr := ?h, tail := brk s\<rparr>"
        have m: "malloc size' s = Some (brk s + sizeof_header_t, ?s)"
          using g None nz sb tx xn hn xb env_ok_not_failed [OF e]
          by (simp add: malloc_def Let_def)
        have "env_ok ?s"
          using e gr ub by (simp add: env_ok_def word_le_def)
        moreover have "chain (hdr ?s) (head ?s) (xs @ [x, brk s])"
          using chain_snoc_new [of "hdr s" "head s" xs x "brk s" ?v] c fresh snoc by simp
        moreover have "laid_out ?h (uint (heap_lo s)) bs (uint (brk s))"
          using l fresh laid_out_sizes [of bs ?h "hdr s"] by auto
        then have "laid_out ?h (uint (heap_lo s)) (bs @ [brk s]) (uint (brk s + ?total))"
          using ub st ut xb by (simp add: laid_out_snoc block_end_def)
        ultimately have "valid_state ?s (bs @ [brk s]) \<and> set bs \<subseteq> set (bs @ [brk s])"
          using lo snoc by (auto simp: valid_state_def)
        with m show ?thesis by blast
      qed
    qed
  qed
qed

lemma free_preserves_valid:
  assumes v: "valid_state s bs" and b: "b \<in> set bs"
  shows "\<exists>s' bs'. free (b + sizeof_header_t) s = Some s' \<and> valid_state s' bs'"
proof -
  let ?n = "s_size (hdr s b)"
  from v have c: "chain (hdr s) (head s) bs" and e: "env_ok s"
    and t: "tail s = (if bs = [] then NULL else last bs)"
    and l: "laid_out (hdr s) (uint (heap_lo s)) bs (uint (brk s))"
    and lo: "0 < heap_lo s"
    by (simp_all add: valid_state_def)
  have bb: "uint (heap_lo s) \<le> uint b" "block_end (hdr s) b \<le> uint (brk s)"
    using v b by (rule valid_block_below_brk)+
  have hi: "uint (brk s) \<le> uint (heap_hi s)" "uint (heap_hi s) < 2 ^ 63"
    using e env_ok_hi [of s] by (simp_all add: env_ok_def word_le_def)
  have p63: "(2::int) ^ 63 < 2 ^ 64" by simp
  have h24: "uint sizeof_header_t = 24" by (simp add: sizeof_header_t_eq)
  have nn: "0 \<le> uint b" "0 \<le> uint ?n" by simp_all
  have "uint b + uint sizeof_header_t < 2 ^ 64"
    using bb(2) hi nn p63 unfolding block_end_def by linarith
  then have u1: "uint (b + sizeof_header_t) = uint b + uint sizeof_header_t"
    by (simp add: uint_add_lem [THEN iffD1])
  with nn(1) h24 have "uint (b + sizeof_header_t) \<noteq> 0" by linarith
  then have pn: "b + sizeof_header_t \<noteq> NULL" by auto
  have "uint (b + sizeof_header_t) + uint ?n < 2 ^ 64"
    using u1 bb(2) hi p63 unfolding block_end_def by linarith
  then have "uint (b + sizeof_header_t + ?n) = uint (b + sizeof_header_t) + uint ?n"
    by (simp add: uint_add_lem [THEN iffD1])
  with u1 have u2: "uint (b + sizeof_header_t + ?n) = block_end (hdr s) b"
    by (simp add: block_end_def)
  show ?thesis
  proof (cases "b + sizeof_header_t + ?n = brk s")
    case False
    let ?s = "s\<lparr>hdr := (hdr s)(b := (hdr s b)\<lparr>s_is_free := 1\<rparr>)\<rparr>"
    have f: "free (b + sizeof_header_t) s = Some ?s"
      using pn False by (simp add: free_def sbrk_def)
    have "chain (hdr ?s) (head ?s) bs"
      using c by (simp add: chain_upd_same_next)
    moreover have "laid_out (hdr ?s) (uint (heap_lo ?s)) bs (uint (brk ?s))"
      using l laid_out_sizes [of bs "hdr ?s" "hdr s"] by simp
    ultimately have "valid_state ?s bs"
      using e t lo by (simp add: valid_state_def env_ok_def)
    with f show ?thesis by blast
  next
    case True
    with u2 have be: "block_end (hdr s) b = uint (brk s)" by simp
    then have ue: "uint b + uint sizeof_header_t + uint ?n = uint (brk s)"
      by (simp add: block_end_def)
    have lob: "heap_lo s \<le> b"
      using bb(1) by (simp add: word_le_def)
    from b obtain xs x where bs: "bs = xs @ [x]"
      by (cases bs rule: rev_cases) auto
    have "b \<notin> set xs"
    proof
      assume "b \<in> set xs"
      with l bs have "block_end (hdr s) b < uint (brk s)"
        using laid_out_inner_end [of "hdr s" "uint (heap_lo s)" xs x "uint (brk s)" b] by simp
      with be show False by simp
    qed
    with b bs have xb: "x = b" by simp
    with t bs have tb: "tail s = b" by simp
    show ?thesis
    proof (cases xs rule: rev_cases)
      case Nil
      with c bs xb have hb: "head s = b" by simp
      let ?s1 = "s\<lparr>tail := NULL, head := NULL\<rparr>"
      have "env_ok ?s1" "heap_lo ?s1 \<le> b"
        "uint b + uint sizeof_header_t + uint ?n = uint (brk ?s1)"
        using e lob ue by (simp_all add: env_ok_def)
      then have sb: "sbrk (0 - sizeof_header_t - ?n) ?s1 = (brk ?s1, ?s1\<lparr>brk := b\<rparr>)"
        by (rule sbrk_release)
      have f: "free (b + sizeof_header_t) s = Some (?s1\<lparr>brk := b\<rparr>)"
        using pn True hb tb sb by (simp add: free_def sbrk_def [of 0])
      have "env_ok (?s1\<lparr>brk := b\<rparr>)"
        using e lob bb(2) block_end_gt [of b "hdr s"] hi
        by (simp add: env_ok_def word_le_def)
      then have "valid_state (?s1\<lparr>brk := b\<rparr>) []"
        using lo bb(1) by (simp add: valid_state_def)
      with f show ?thesis by blast
    next
      case (snoc ys p)
      with bs xb have bs': "bs = ys @ [p, b]" by simp
      with c have d: "distinct (ys @ [p, b])"
        using chain_distinct by fastforce
      have hn: "head s \<noteq> b"
        using c d bs' by (cases ys) auto
      have pb: "p \<noteq> b" using d by simp
      let ?h = "(hdr s)(p := (hdr s p)\<lparr>s_next := NULL\<rparr>)"
      let ?s1 = "s\<lparr>hdr := ?h, tail := p\<rparr>"
      have fl: "free_loop (head s) s = Some ?s1"
        using c tb unfolding bs' by (rule free_loop_chain)
      have "env_ok ?s1" "heap_lo ?s1 \<le> b"
        "uint b + uint sizeof_header_t + uint ?n = uint (brk ?s1)"
        using e lob ue by (simp_all add: env_ok_def)
      then have sb: "sbrk (0 - sizeof_header_t - ?n) ?s1 = (brk ?s1, ?s1\<lparr>brk := b\<rparr>)"
        by (rule sbrk_release)
      have f: "free (b + sizeof_header_t) s = Some (?s1\<lparr>brk := b\<rparr>)"
        using pn True hn tb pb fl sb by (simp add: free_def sbrk_def [of 0])
      have "env_ok (?s1\<lparr>brk := b\<rparr>)"
        using e lob bb(2) block_end_gt [of b "hdr s"] hi
        by (simp add: env_ok_def word_le_def)
      moreover have "chain ?h (head s) (ys @ [p])"
        using c unfolding bs' by (rule chain_drop_last)
      moreover have "laid_out (hdr s) (uint (heap_lo s)) (ys @ [p]) (uint b)"
        using l bs' laid_out_snoc [of "hdr s" "uint (heap_lo s)" "ys @ [p]" b "uint (brk s)"]
        by simp
      then have "laid_out ?h (uint (heap_lo s)) (ys @ [p]) (uint b)"
        using laid_out_sizes [of "ys @ [p]" ?h "hdr s"] by simp
      ultimately have "valid_state (?s1\<lparr>brk := b\<rparr>) (ys @ [p])"
        using lo by (simp add: valid_state_def)
      with f show ?thesis by blast
    qed
  qed
qed

lemma calloc_preserves_valid:
  assumes "valid_state s bs" and "uint sizeof_header_t + uint (num * nsize) < 2 ^ 63"
  shows "\<exists>p s' bs'. calloc num nsize s = Some (p, s') \<and> valid_state s' bs'"
proof -
  from malloc_preserves_valid [OF assms] obtain p s1 bs1
    where m: "malloc (num * nsize) s = Some (p, s1)" and v1: "valid_state s1 bs1"
    by blast
  have "calloc num nsize s = Some (NULL, s) \<or> calloc num nsize s = Some (NULL, s1)
      \<or> calloc num nsize s = Some (p, memset p 0 (num * nsize) s1)"
    using m by (simp add: calloc_def Let_def)
  moreover have "valid_state (memset p 0 (num * nsize) s1) bs1"
    using v1 by (simp add: memset_def valid_state_mem)
  ultimately show ?thesis
    using assms(1) v1 by blast
qed

lemma realloc_preserves_valid:
  assumes "valid_state s bs" and "b \<in> set bs"
    and "uint sizeof_header_t + uint size' < 2 ^ 63"
  shows "\<exists>r s' bs'. realloc (b + sizeof_header_t) size' s = Some (r, s') \<and> valid_state s' bs'"
proof -
  let ?block = "b + sizeof_header_t"
  from malloc_preserves_valid [OF assms(1,3)] obtain p s1 bs1
    where m: "malloc size' s = Some (p, s1)" and v1: "valid_state s1 bs1"
      and sub: "set bs \<subseteq> set bs1"
    by blast
  let ?s2 = "memcpy p ?block (s_size (hdr s1 (?block - sizeof_header_t))) s1"
  have "valid_state ?s2 bs1"
    using v1 by (simp add: memcpy_def valid_state_mem)
  moreover from sub assms(2) have "b \<in> set bs1" by auto
  ultimately obtain s3 bs3 where f: "free ?block ?s2 = Some s3" and v3: "valid_state s3 bs3"
    using free_preserves_valid by blast
  have "realloc ?block size' s = Some (NULL, s) \<or> realloc ?block size' s = Some (?block, s)
      \<or> realloc ?block size' s = Some (p, s1) \<or> realloc ?block size' s = Some (p, s3)"
    using m f by (simp add: realloc_def Let_def)
  with assms(1) v1 v3 show ?thesis by blast
qed

text \<open>
  From the empty registry in a sound environment, a request that does not wrap around
  is undone by \<open>free\<close>: the break is back at its old value and head and tail are null.
  This covers the refused request too: \<open>malloc\<close> then returns null and \<open>free\<close> of null
  does nothing.
\<close>

lemma malloc_free_roundtrip_in_range:
  assumes "head s = NULL" and "tail s = NULL" and "env_ok s" and "size' \<noteq> 0"
    and fit: "uint sizeof_header_t + uint size' < 2 ^ 63"
  shows "\<exists>p s1 s2. malloc size' s = Some (p, s1) \<and> free p s1 = Some s2
           \<and> brk s2 = brk s \<and> head s2 = NULL \<and> tail s2 = NULL"
proof -
  let ?total = "sizeof_header_t + size'"
  have g: "get_free_block size' s = Some NULL"
    using assms(1) by (simp add: get_free_block_def get_free_block_loop.simps)
  have nf: "brk s \<noteq> sbrk_failed" and pn: "brk s + sizeof_header_t \<noteq> NULL"
    using assms(3) by (rule env_ok_not_failed, rule env_ok_payload)
  show ?thesis
  proof (cases "fst (sbrk ?total s) = sbrk_failed")
    case True
    then have "sbrk ?total s = (sbrk_failed, s)"
      using nf sbrk_cases [of ?total s] by auto
    then have "malloc size' s = Some (NULL, s)"
      using g assms(4) by (simp add: malloc_def)
    then show ?thesis
      using assms(1,2) by (simp add: free_def)
  next
    case False
    have p64: "(2::int) ^ 63 < 2 ^ 64" by simp
    have h24: "uint sizeof_header_t = 24" by (simp add: sizeof_header_t_eq)
    have ut: "uint ?total = uint sizeof_header_t + uint size'"
      using fit p64 by (simp add: uint_add_lem [THEN iffD1])
    have st: "sint ?total = uint ?total"
      using fit ut by (intro sint_small) simp
    have sp: "0 < sint ?total"
      using st ut h24 uint_ge_0 [of size'] by linarith
    have sb: "sbrk ?total s = (brk s, s\<lparr>brk := brk s + ?total\<rparr>)"
      and gr: "uint (brk s) + sint ?total \<le> uint (heap_hi s)"
      using sp False by (rule sbrk_grow)+
    have "uint (brk s) + sint ?total < 2 ^ 64"
      using gr env_ok_hi [OF assms(3)] p64 by linarith
    moreover have "0 \<le> uint (brk s) + sint ?total"
      using sp uint_ge_0 [of "brk s"] by linarith
    ultimately have ub: "uint (brk s + ?total) = uint (brk s) + sint ?total"
      by (intro uint_add_sint)
    define s1 where "s1 = s\<lparr>brk := brk s + ?total,
      hdr := (hdr s)(brk s := (hdr s (brk s))\<lparr>s_size := size', s_is_free := 0, s_next := NULL\<rparr>),
      head := brk s, tail := brk s\<rparr>"
    have m: "malloc size' s = Some (brk s + sizeof_header_t, s1)"
      using g assms(1,2,4) sb nf by (simp add: malloc_def s1_def Let_def)
    define s2 where "s2 = s1\<lparr>tail := NULL, head := NULL\<rparr>"
    have "env_ok s2"
      using assms(3) gr ub sp by (simp add: env_ok_def word_le_def s2_def s1_def)
    moreover have "heap_lo s2 \<le> brk s"
      using assms(3) by (simp add: env_ok_def s2_def s1_def)
    moreover have "uint (brk s) + uint sizeof_header_t + uint size' = uint (brk s2)"
      using ub st ut by (simp add: s2_def s1_def)
    ultimately have r: "sbrk (0 - sizeof_header_t - size') s2 = (brk s2, s2\<lparr>brk := brk s\<rparr>)"
      by (rule sbrk_release)
    have f: "free (brk s + sizeof_header_t) s1 = Some (s2\<lparr>brk := brk s\<rparr>)"
      using pn r by (simp add: free_def sbrk_def [of 0] s1_def s2_def add.assoc Let_def)
    have "brk (s2\<lparr>brk := brk s\<rparr>) = brk s" "head (s2\<lparr>brk := brk s\<rparr>) = NULL"
      "tail (s2\<lparr>brk := brk s\<rparr>) = NULL"
      by (simp_all add: s2_def)
    with m f show ?thesis by blast
  qed
qed

end
